theory Spec2Isabelle
  imports Main
begin

section \<open>The \<open>add\<close> command of the Astra CLI (\<open>src/commands/add.js\<close>)\<close>

text \<open>
  The development embeds the component installation loop of \<^verbatim>\<open>add\<close>
  (lines 356 to 437 of \<open>src/commands/add.js\<close>): the install queue, the two sets of
  installed and failed components, the copy of a component directory and the rewrite of
  the import paths of the copied TypeScript files.

  \<^item> The file system is modelled per component: \<open>source e c\<close> is the directory
    \<^verbatim>\<open>path.join(COMPONENTS_PATH, c)\<close> and \<open>dest s c\<close> the directory
    \<^verbatim>\<open>path.join(process.cwd(), componentsPath, c)\<close>; \<open>None\<close> means that
    \<^verbatim>\<open>fs.existsSync\<close> answers false. A directory is the list of its files, each a name
    and a content. Component names are taken to be plain directory names: distinct names
    denote distinct directories, none inside another, and the sources are apart from the
    destinations.
  \<^item> An exception of an \<^verbatim>\<open>fs\<close> call is decided by the environment
    (\<open>copyThrows\<close>, \<open>fileThrows\<close>); a call that throws writes nothing.
  \<^item> Console output (the \<^verbatim>\<open>ora\<close> spinner and \<^verbatim>\<open>console.log\<close>) is a list of events.
\<close>

subsection \<open>Import path rewriting (lines 404 to 414)\<close>

text \<open>
  \<^verbatim>\<open>content.replace(/from ['"]@\/lib\/utils['"]/g, `from '@/lib/utils'`)\<close> and
  \<^verbatim>\<open>content.replace(/from ['"]@\/components\/ui\/([^'"]+)['"]/g, `from '@/components/ui/$1'`)\<close>.
  A content is a list of characters. Each regular expression is a sequence of matchers,
  each consuming a prefix of the text: a literal (\<open>stripPrefix\<close>), the class
  \<^verbatim>\<open>['"]\<close> (\<open>takeQuote\<close>) and the greedy group \<^verbatim>\<open>([^'"]+)\<close> (\<open>takeName\<close>).
  The group takes the longest run of characters other than quotes; a shorter run is
  followed by a character that is not a quote, so backtracking finds no other match.
\<close>

definition isQuote :: "char \<Rightarrow> bool" where
  "isQuote c = (c = CHR 0x27 \<or> c = CHR 0x22)"

fun stripPrefix :: "string \<Rightarrow> string \<Rightarrow> string option" where
  "stripPrefix [] s = Some s"
| "stripPrefix (p # ps) [] = None"
| "stripPrefix (p # ps) (c # cs) = (if p = c then stripPrefix ps cs else None)"

definition takeQuote :: "string \<Rightarrow> string option" where
  "takeQuote s = (case s of [] \<Rightarrow> None | q # r \<Rightarrow> if isQuote q then Some r else None)"

definition takeName :: "string \<Rightarrow> (string \<times> string) option" where
  "takeName s =
     (case takeWhile (\<lambda>c. \<not> isQuote c) s of
        [] \<Rightarrow> None
      | g # gs \<Rightarrow> Some (g # gs, dropWhile (\<lambda>c. \<not> isQuote c) s))"

text \<open>A match at the start of the text: the text after the match (and the group).\<close>

definition matchUtils :: "string \<Rightarrow> string option" where
  "matchUtils s =
     Option.bind (stripPrefix ''from '' s) (\<lambda>a.
     Option.bind (takeQuote a) (\<lambda>b.
     Option.bind (stripPrefix ''@/lib/utils'' b) takeQuote))"

definition matchUi :: "string \<Rightarrow> (string \<times> string) option" where
  "matchUi s =
     Option.bind (stripPrefix ''from '' s) (\<lambda>a.
     Option.bind (takeQuote a) (\<lambda>b.
     Option.bind (stripPrefix ''@/components/ui/'' b) (\<lambda>t.
     Option.bind (takeName t) (\<lambda>(g, u).
     Option.bind (takeQuote u) (\<lambda>rest. Some (g, rest))))))"

lemma stripPrefix_iff: "stripPrefix p s = Some r \<longleftrightarrow> s = p @ r"
  by (induction p s rule: stripPrefix.induct) auto

lemma takeQuote_iff: "takeQuote s = Some r \<longleftrightarrow> (\<exists>q. isQuote q \<and> s = q # r)"
  by (auto simp: takeQuote_def split: list.splits)

lemma takeName_Some:
  "takeName s = Some (g, u) \<Longrightarrow> s = g @ u \<and> g \<noteq> []"
  using takeWhile_dropWhile_id [of "\<lambda>c. \<not> isQuote c" s]
  by (auto simp: takeName_def split: list.splits)

lemma matchUtils_Some:
  "matchUtils s = Some rest \<Longrightarrow>
     \<exists>q q'. isQuote q \<and> isQuote q' \<and> s = ''from '' @ q # ''@/lib/utils'' @ q' # rest"
  unfolding matchUtils_def
  by (auto simp: stripPrefix_iff takeQuote_iff bind_eq_Some_conv)

lemma matchUi_Some:
  "matchUi s = Some (g, rest) \<Longrightarrow>
     \<exists>q q'. isQuote q \<and> isQuote q' \<and> s = ''from '' @ q # ''@/components/ui/'' @ g @ q' # rest"
  unfolding matchUi_def
  by (auto simp: stripPrefix_iff takeQuote_iff bind_eq_Some_conv dest!: takeName_Some)

lemma matchUtils_length: "matchUtils s = Some r \<Longrightarrow> length r < length s"
  by (auto dest!: matchUtils_Some)

lemma matchUi_length: "matchUi s = Some (g, r) \<Longrightarrow> length r < length s"
  by (auto dest!: matchUi_Some)

text \<open>
  A global replace scans the text from the left: where the expression matches, the
  replacement is written and the scan goes on after the match; elsewhere the character
  is kept. No match is empty.
\<close>

function replaceUtils :: "string \<Rightarrow> string" where
  "replaceUtils [] = []"
| "replaceUtils (c # cs) =
     (case matchUtils (c # cs) of
        Some rest \<Rightarrow> ''from '' @ [CHR 0x27] @ ''@/lib/utils'' @ [CHR 0x27] @ replaceUtils rest
      | None \<Rightarrow> c # replaceUtils cs)"
  by pat_completeness auto

termination
  by (relation "measure length") (auto dest: matchUtils_length)

function replaceUi :: "string \<Rightarrow> string" where
  "replaceUi [] = []"
| "replaceUi (c # cs) =
     (case matchUi (c # cs) of
        Some (g, rest) \<Rightarrow>
          ''from '' @ [CHR 0x27] @ ''@/components/ui/'' @ g @ [CHR 0x27] @ replaceUi rest
      | None \<Rightarrow> c # replaceUi cs)"
  by pat_completeness auto

termination
  by (relation "measure length") (auto dest: matchUi_length)

definition rewriteImports :: "string \<Rightarrow> string" where
  "rewriteImports content = replaceUi (replaceUtils content)"

subsection \<open>The state of the loop and its environment\<close>

type_synonym name = string

type_synonym dir = "(string \<times> string) list"

datatype event =
    Adding name
  | NotFound name
  | AlreadyExists name
  | Added name
  | DependencyRequired name
  | FailedToAdd name

text \<open>
  What the loop reads and never writes: \<^verbatim>\<open>options.force\<close>, the table
  \<^verbatim>\<open>COMPONENT_DEPENDENCIES\<close> (taken as a parameter, the entries of the object
  literal in their order), the component sources, and which \<^verbatim>\<open>fs\<close> calls throw:
  \<open>copyThrows e c\<close> for \<^verbatim>\<open>fs.copy\<close> and \<^verbatim>\<open>fs.readdir\<close> of component \<open>c\<close>,
  \<open>fileThrows e c f\<close> for \<^verbatim>\<open>fs.readFile\<close> and \<^verbatim>\<open>fs.writeFile\<close> of its file \<open>f\<close>.
\<close>

record env =
  force :: bool
  dependencyTable :: "(name \<times> name list) list"
  source :: "name \<Rightarrow> dir option"
  copyThrows :: "name \<Rightarrow> bool"
  fileThrows :: "name \<Rightarrow> string \<Rightarrow> bool"

text \<open>
  The variables of the loop, the destination directories and the console. A JavaScript
  \<^verbatim>\<open>Set\<close> keeps its elements in insertion order: it is a list, and \<open>setAdd\<close> is
  \<^verbatim>\<open>Set.prototype.add\<close>.
\<close>

record state =
  installQueue :: "name list"
  installedComponents :: "name list"
  failedComponents :: "name list"
  dest :: "name \<Rightarrow> dir option"
  console :: "event list"

definition setAdd :: "'a list \<Rightarrow> 'a \<Rightarrow> 'a list" where
  "setAdd xs x = (if x \<in> set xs then xs else xs @ [x])"

definition COMPONENT_DEPENDENCIES :: "(name \<times> name list) list" where
  "COMPONENT_DEPENDENCIES = [(''Accordion'', [''Collapsible''])]"

text \<open>
  \<^verbatim>\<open>COMPONENT_DEPENDENCIES[component] || []\<close>, then \<^verbatim>\<open>for (const dep of dependencies)\<close>
  (lines 424 and 425). The table is an object literal, so a property lookup finds an own
  property (for a repeated key the last entry), and otherwise a property inherited from
  \<^verbatim>\<open>Object.prototype\<close>. An inherited property is a function (for \<^verbatim>\<open>__proto__\<close>
  the prototype object): it is truthy, so \<^verbatim>\<open>|| []\<close> does not replace it, and it is not
  iterable, so the \<^verbatim>\<open>for...of\<close> throws a TypeError. The result \<open>None\<close> is that
  exception; an array is always truthy. The entries of a table are its own properties:
  none has the key \<^verbatim>\<open>__proto__\<close>, which in an object literal sets the prototype.
\<close>

definition objectPrototypeKeys :: "name list" where
  "objectPrototypeKeys =
     [''constructor'', ''__proto__'', ''hasOwnProperty'', ''isPrototypeOf'',
      ''propertyIsEnumerable'', ''toLocaleString'', ''toString'', ''valueOf'',
      ''__defineGetter__'', ''__defineSetter__'', ''__lookupGetter__'',
      ''__lookupSetter__'']"

definition lookupDependencies :: "(name \<times> name list) list \<Rightarrow> name \<Rightarrow> name list option" where
  "lookupDependencies table component =
     (case map_of (rev table) component of
        Some deps \<Rightarrow> Some deps
      | None \<Rightarrow> if component \<in> set objectPrototypeKeys then None else Some [])"

subsection \<open>Copying and rewriting a component (lines 394 to 418)\<close>

text \<open>\<^verbatim>\<open>file.endsWith(suffix)\<close>.\<close>

definition endsWith :: "string \<Rightarrow> string \<Rightarrow> bool" where
  "endsWith s suffix =
     (length suffix \<le> length s \<and> drop (length s - length suffix) s = suffix)"

text \<open>
  \<^verbatim>\<open>fs.copy(componentSourceDir, componentDestDir, { overwrite: options.force })\<close>:
  a missing destination becomes a copy of the source; into an existing one the files of
  the source are written, replacing a file of the same name only when \<open>overwrite\<close> is set.
\<close>

definition copyDir :: "dir \<Rightarrow> dir option \<Rightarrow> bool \<Rightarrow> dir" where
  "copyDir src dst overwrite =
     (case dst of
        None \<Rightarrow> src
      | Some old \<Rightarrow>
          if overwrite
          then src @ filter (\<lambda>(f, _). f \<notin> fst ` set src) old
          else old @ filter (\<lambda>(f, _). f \<notin> fst ` set old) src)"

text \<open>
  The loop over \<^verbatim>\<open>fs.readdir(componentDestDir)\<close>: each \<^verbatim>\<open>.tsx\<close> or \<^verbatim>\<open>.ts\<close> file is
  read, rewritten and written back. The result is the directory and whether the loop
  ended without an exception; at an exception the files before the failing one are
  rewritten and the others are as copied.
\<close>

fun rewriteFiles :: "(string \<Rightarrow> bool) \<Rightarrow> dir \<Rightarrow> dir \<times> bool" where
  "rewriteFiles throws [] = ([], True)"
| "rewriteFiles throws ((file, content) # files) =
     (if endsWith file ''.tsx'' \<or> endsWith file ''.ts'' then
        (if throws file then ((file, content) # files, False)
         else (case rewriteFiles throws files of
                 (files', ok) \<Rightarrow> ((file, rewriteImports content) # files', ok)))
      else (case rewriteFiles throws files of
              (files', ok) \<Rightarrow> ((file, content) # files', ok)))"

subsection \<open>The installation loop (lines 356 to 437)\<close>

text \<open>Lines 425 to 430: the dependencies that are neither installed nor queued are pushed.\<close>

fun enqueueDependencies :: "state \<Rightarrow> name list \<Rightarrow> state" where
  "enqueueDependencies s [] = s"
| "enqueueDependencies s (dep # deps) =
     enqueueDependencies
       (if dep \<notin> set (installedComponents s) \<and> dep \<notin> set (installQueue s)
        then s\<lparr>console := console s @ [DependencyRequired dep],
               installQueue := installQueue s @ [dep]\<rparr>
        else s)
       deps"

text \<open>Lines 432 to 436: the \<^verbatim>\<open>catch\<close> block.\<close>

definition catchError :: "name \<Rightarrow> state \<Rightarrow> state" where
  "catchError component s =
     s\<lparr>console := console s @ [FailedToAdd component],
       failedComponents := setAdd (failedComponents s) component\<rparr>"

text \<open>Lines 365 to 436: the body of the loop for the component taken from the queue.\<close>

definition processComponent :: "env \<Rightarrow> name \<Rightarrow> state \<Rightarrow> state" where
  "processComponent e component s =
     (if component \<in> set (installedComponents s) \<or> component \<in> set (failedComponents s)
      then s
      else
        let s1 = s\<lparr>console := console s @ [Adding component]\<rparr> in
        case source e component of
          None \<Rightarrow>
            s1\<lparr>console := console s1 @ [NotFound component],
                failedComponents := setAdd (failedComponents s1) component\<rparr>
        | Some src \<Rightarrow>
            if dest s1 component \<noteq> None \<and> \<not> force e then
              s1\<lparr>console := console s1 @ [AlreadyExists component],
                  installedComponents := setAdd (installedComponents s1) component\<rparr>
            else if copyThrows e component then catchError component s1
            else
              (case rewriteFiles (fileThrows e component)
                      (copyDir src (dest s1 component) (force e)) of
                 (files, False) \<Rightarrow>
                   catchError component (s1\<lparr>dest := (dest s1)(component := Some files)\<rparr>)
               | (files, True) \<Rightarrow>
                   let s2 = s1\<lparr>dest := (dest s1)(component := Some files),
                               console := console s1 @ [Added component],
                               installedComponents :=
                                 setAdd (installedComponents s1) component\<rparr> in
                   (case lookupDependencies (dependencyTable e) component of
                      None \<Rightarrow> catchError component s2
                    | Some dependencies \<Rightarrow> enqueueDependencies s2 dependencies)))"

text \<open>One pass of the \<^verbatim>\<open>while\<close> loop: \<^verbatim>\<open>installQueue.shift()\<close> and the body.\<close>

definition iteration :: "env \<Rightarrow> state \<Rightarrow> state" where
  "iteration e s =
     (case installQueue s of
        [] \<Rightarrow> s
      | component # rest \<Rightarrow> processComponent e component (s\<lparr>installQueue := rest\<rparr>))"

subsection \<open>Termination of the loop\<close>

text \<open>
  The components in either set are the processed ones. Every pass of the loop either
  processes a component that was not processed before, or shortens the queue and
  processes nothing. A pass adds to the queue only names that occur in the table, so
  the names that are queued or in the table and not yet processed decrease in number.
\<close>

definition processed :: "state \<Rightarrow> name set" where
  "processed s = set (installedComponents s) \<union> set (failedComponents s)"

definition tableNames :: "env \<Rightarrow> name set" where
  "tableNames e = (\<Union>(k, deps)\<in>set (dependencyTable e). set deps)"

definition pending :: "env \<Rightarrow> state \<Rightarrow> nat" where
  "pending e s = card ((set (installQueue s) \<union> tableNames e) - processed s)"

lemma enqueue_installed [simp]:
  "installedComponents (enqueueDependencies s ds) = installedComponents s"
  by (induction ds arbitrary: s) auto

lemma enqueue_failed [simp]:
  "failedComponents (enqueueDependencies s ds) = failedComponents s"
  by (induction ds arbitrary: s) auto

lemma enqueue_dest [simp]: "dest (enqueueDependencies s ds) = dest s"
  by (induction ds arbitrary: s) auto

lemma enqueue_processed [simp]: "processed (enqueueDependencies s ds) = processed s"
  by (simp add: processed_def)

lemma enqueue_queue_set:
  "set (installQueue (enqueueDependencies s ds)) =
     set (installQueue s) \<union> (set ds - set (installedComponents s))"
  by (induction ds arbitrary: s) auto

lemma lookup_tableNames:
  "lookupDependencies (dependencyTable e) c = Some ds \<Longrightarrow> set ds \<subseteq> tableNames e"
  by (auto simp: lookupDependencies_def tableNames_def split: option.splits if_splits
      dest!: map_of_SomeD)

lemma iteration_cases [consumes 1, case_names Skip Missing Exists CopyThrows RewriteThrows TypeError Copied]:
  assumes "installQueue s = c # q"
  obtains
    "c \<in> processed s" and "iteration e s = s\<lparr>installQueue := q\<rparr>"
  | "c \<notin> processed s" and "source e c = None"
      and "iteration e s = s\<lparr>installQueue := q,
             console := console s @ [Adding c, NotFound c],
             failedComponents := failedComponents s @ [c]\<rparr>"
  | src where "c \<notin> processed s" and "source e c = Some src"
      and "dest s c \<noteq> None" and "\<not> force e"
      and "iteration e s = s\<lparr>installQueue := q,
             console := console s @ [Adding c, AlreadyExists c],
             installedComponents := installedComponents s @ [c]\<rparr>"
  | src where "c \<notin> processed s" and "source e c = Some src"
      and "dest s c = None \<or> force e" and "copyThrows e c"
      and "iteration e s = s\<lparr>installQueue := q,
             console := console s @ [Adding c, FailedToAdd c],
             failedComponents := failedComponents s @ [c]\<rparr>"
  | src files where "c \<notin> processed s" and "source e c = Some src"
      and "dest s c = None \<or> force e" and "\<not> copyThrows e c"
      and "rewriteFiles (fileThrows e c) (copyDir src (dest s c) (force e)) = (files, False)"
      and "iteration e s = s\<lparr>installQueue := q,
             dest := (dest s)(c := Some files),
             console := console s @ [Adding c, FailedToAdd c],
             failedComponents := failedComponents s @ [c]\<rparr>"
  | src files where "c \<notin> processed s" and "source e c = Some src"
      and "dest s c = None \<or> force e" and "\<not> copyThrows e c"
      and "rewriteFiles (fileThrows e c) (copyDir src (dest s c) (force e)) = (files, True)"
      and "lookupDependencies (dependencyTable e) c = None"
      and "iteration e s = s\<lparr>installQueue := q,
             dest := (dest s)(c := Some files),
             console := console s @ [Adding c, Added c, FailedToAdd c],
             installedComponents := installedComponents s @ [c],
             failedComponents := failedComponents s @ [c]\<rparr>"
  | src files deps where "c \<notin> processed s" and "source e c = Some src"
      and "dest s c = None \<or> force e" and "\<not> copyThrows e c"
      and "rewriteFiles (fileThrows e c) (copyDir src (dest s c) (force e)) = (files, True)"
      and "lookupDependencies (dependencyTable e) c = Some deps"
      and "iteration e s = enqueueDependencies
             (s\<lparr>installQueue := q,
                dest := (dest s)(c := Some files),
                console := console s @ [Adding c, Added c],
                installedComponents := installedComponents s @ [c]\<rparr>) deps"
proof (cases "c \<in> processed s")
  case True
  with assms that(1) show ?thesis
    by (simp add: iteration_def processComponent_def processed_def Let_def)
next
  case np: False
  show ?thesis
  proof (cases "source e c")
    case None
    with assms np that(2) show ?thesis
      by (simp add: iteration_def processComponent_def processed_def setAdd_def Let_def)
  next
    case (Some src)
    show ?thesis
    proof (cases "dest s c \<noteq> None \<and> \<not> force e")
      case True
      with assms np Some that(3) [of src] show ?thesis
        by (simp add: iteration_def processComponent_def processed_def setAdd_def Let_def)
    next
      case False
      then have ne: "dest s c = None \<or> force e" by simp
      have branch: "iteration e s =
        (let s1 = s\<lparr>installQueue := q, console := console s @ [Adding c]\<rparr> in
         if copyThrows e c then catchError c s1
         else
           (case rewriteFiles (fileThrows e c) (copyDir src (dest s c) (force e)) of
              (files, False) \<Rightarrow> catchError c (s1\<lparr>dest := (dest s1)(c := Some files)\<rparr>)
            | (files, True) \<Rightarrow>
                let s2 = s1\<lparr>dest := (dest s1)(c := Some files),
                            console := console s1 @ [Added c],
                            installedComponents := setAdd (installedComponents s1) c\<rparr> in
                (case lookupDependencies (dependencyTable e) c of
                   None \<Rightarrow> catchError c s2
                 | Some dependencies \<Rightarrow> enqueueDependencies s2 dependencies)))"
        using ne
      proof
        assume "dest s c = None"
        with assms np Some show ?thesis
          by (simp add: iteration_def processComponent_def processed_def Let_def)
      next
        assume "force e"
        with assms np Some show ?thesis
          by (simp add: iteration_def processComponent_def processed_def Let_def)
      qed
      show ?thesis
      proof (cases "copyThrows e c")
        case True
        with np Some ne that(4) [of src] show ?thesis
          by (simp add: branch processed_def setAdd_def catchError_def Let_def)
      next
        case nt: False
        obtain files ok where rw:
          "rewriteFiles (fileThrows e c) (copyDir src (dest s c) (force e)) = (files, ok)"
          by (cases "rewriteFiles (fileThrows e c) (copyDir src (dest s c) (force e))")
        show ?thesis
        proof (cases ok)
          case False
          with np Some ne nt rw that(5) [of src files] show ?thesis
            by (simp add: branch processed_def setAdd_def catchError_def Let_def)
        next
          case True
          show ?thesis
          proof (cases "lookupDependencies (dependencyTable e) c")
            case None
            with np Some ne nt rw True that(6) [of src files] show ?thesis
              by (simp add: branch processed_def setAdd_def catchError_def Let_def)
          next
            case (Some deps)
            with np \<open>source e c = Some src\<close> ne nt rw True that(7) [of src files deps]
            show ?thesis
              by (simp add: branch processed_def setAdd_def Let_def)
          qed
        qed
      qed
    qed
  qed
qed

lemma finite_tableNames: "finite (tableNames e)"
  by (auto simp: tableNames_def)

lemma pending_less:
  assumes "c \<in> set (installQueue s)" and "c \<notin> processed s"
    and "processed s' = insert c (processed s)"
    and "set (installQueue s') \<subseteq> set (installQueue s) \<union> tableNames e"
  shows "pending e s' < pending e s"
  unfolding pending_def
proof (rule psubset_card_mono)
  show "finite ((set (installQueue s) \<union> tableNames e) - processed s)"
    by (simp add: finite_tableNames)
  show "(set (installQueue s') \<union> tableNames e) - processed s'
          \<subset> (set (installQueue s) \<union> tableNames e) - processed s"
    using assms by auto
qed

lemma pending_le:
  assumes "processed s' = processed s"
    and "set (installQueue s') \<subseteq> set (installQueue s)"
  shows "pending e s' \<le> pending e s"
  unfolding pending_def
  by (rule card_mono) (use assms in \<open>auto simp: finite_tableNames\<close>)

lemma iteration_decreases:
  assumes "installQueue s \<noteq> []"
  shows "pending e (iteration e s) < pending e s \<or>
         (pending e (iteration e s) \<le> pending e s \<and>
          length (installQueue (iteration e s)) < length (installQueue s))"
proof -
  from assms obtain c q where cq: "installQueue s = c # q"
    by (cases "installQueue s") auto
  then show ?thesis
  proof (cases rule: iteration_cases [where e = e])
    case Skip
    then have "pending e (iteration e s) \<le> pending e s"
      using cq by (intro pending_le) (auto simp: processed_def)
    with Skip cq show ?thesis by simp
  next
    case Missing
    then have "pending e (iteration e s) < pending e s"
      using cq by (intro pending_less [of c]) (auto simp: processed_def)
    then show ?thesis ..
  next
    case (Exists src)
    then have "pending e (iteration e s) < pending e s"
      using cq by (intro pending_less [of c]) (auto simp: processed_def)
    then show ?thesis ..
  next
    case (CopyThrows src)
    then have "pending e (iteration e s) < pending e s"
      using cq by (intro pending_less [of c]) (auto simp: processed_def)
    then show ?thesis ..
  next
    case (RewriteThrows src files)
    then have "pending e (iteration e s) < pending e s"
      using cq by (intro pending_less [of c]) (auto simp: processed_def)
    then show ?thesis ..
  next
    case (TypeError src files)
    then have "pending e (iteration e s) < pending e s"
      using cq by (intro pending_less [of c]) (auto simp: processed_def)
    then show ?thesis ..
  next
    case (Copied src files deps)
    then have "pending e (iteration e s) < pending e s"
      using cq lookup_tableNames [of e c deps]
      by (intro pending_less [of c]) (auto simp: processed_def enqueue_queue_set)
    then show ?thesis ..
  qed
qed

text \<open>The \<^verbatim>\<open>while (installQueue.length > 0)\<close> loop of line 362.\<close>

function drain :: "env \<Rightarrow> state \<Rightarrow> state" where
  "drain e s = (if installQueue s = [] then s else drain e (iteration e s))"
  by pat_completeness auto

termination
proof (relation "inv_image (less_than <*lex*> less_than)
                   (\<lambda>(e, s). (pending e s, length (installQueue s)))")
  show "wf (inv_image (less_than <*lex*> less_than)
              (\<lambda>(e, s). (pending e s, length (installQueue s))))"
    by (intro wf_inv_image wf_lex_prod wf_less_than)
next
  fix e :: env and s :: state
  assume "installQueue s \<noteq> []"
  from iteration_decreases [OF this, of e]
  show "((e, iteration e s), (e, s)) \<in> inv_image (less_than <*lex*> less_than)
          (\<lambda>(e, s). (pending e s, length (installQueue s)))"
    by auto
qed

declare drain.simps [simp del]

definition initialState :: "(name \<Rightarrow> dir option) \<Rightarrow> name list \<Rightarrow> state" where
  "initialState d components =
     \<lparr>installQueue = components, installedComponents = [], failedComponents = [],
      dest = d, console = []\<rparr>"

definition add :: "env \<Rightarrow> (name \<Rightarrow> dir option) \<Rightarrow> name list \<Rightarrow> state" where
  "add e d components = drain e (initialState d components)"

section \<open>Definitions for the statements and the proofs\<close>

subsection \<open>What the console tells\<close>

text \<open>
  The components for which an install attempt was started, in order: one
  \<open>Adding\<close> event is written where the spinner of lines 370 to 373 starts, after the
  test of line 366 and before \<^verbatim>\<open>fs.existsSync(componentSourceDir)\<close>.
\<close>

fun attempts :: "event list \<Rightarrow> name list" where
  "attempts [] = []"
| "attempts (Adding c # evs) = c # attempts evs"
| "attempts (ev # evs) = attempts evs"

subsection \<open>The dependencies a pass pushes\<close>

text \<open>
  The names that \<open>enqueueDependencies\<close> appends, as a function of the installed set,
  the queue and the dependencies (\<open>enqueue_eq\<close> below).
\<close>

fun newDependencies :: "name list \<Rightarrow> name list \<Rightarrow> name list \<Rightarrow> name list" where
  "newDependencies inst queue [] = []"
| "newDependencies inst queue (d # ds) =
     (if d \<notin> set inst \<and> d \<notin> set queue
      then d # newDependencies inst (queue @ [d]) ds
      else newDependencies inst queue ds)"

subsection \<open>The outcome of an install attempt\<close>

text \<open>
  The branch that the body of the loop takes for a component \<open>c\<close> when the destination
  directories are \<open>d\<close>: the source is missing (line 378), the destination exists and
  \<^verbatim>\<open>--force\<close> is not set (line 388), an \<^verbatim>\<open>fs\<close> call throws, or the component is
  copied and rewritten. \<open>dependsOn\<close> is the dependency relation of the table and
  \<open>followed\<close> its part that leaves a copied component. \<open>view\<close> is the state without
  the file system, and \<open>resolveStep\<close> a pass of the loop on it, given the outcome of
  every component (\<open>iteration_view\<close> below).
\<close>

datatype outcome = SourceMissing | AlreadyPresent | CopyFailed | Copied

definition installOutcome :: "env \<Rightarrow> (name \<Rightarrow> dir option) \<Rightarrow> name \<Rightarrow> outcome" where
  "installOutcome e d c =
     (case source e c of
        None \<Rightarrow> SourceMissing
      | Some src \<Rightarrow>
          if d c \<noteq> None \<and> \<not> force e then AlreadyPresent
          else if copyThrows e c then CopyFailed
          else if snd (rewriteFiles (fileThrows e c) (copyDir src (d c) (force e)))
          then Copied else CopyFailed)"

definition dependsOn :: "(name \<times> name list) list \<Rightarrow> (name \<times> name) set" where
  "dependsOn table =
     {(c, y). \<exists>deps. lookupDependencies table c = Some deps \<and> y \<in> set deps}"

definition followed :: "env \<Rightarrow> (name \<Rightarrow> dir option) \<Rightarrow> (name \<times> name) set" where
  "followed e d = {(c, y). installOutcome e d c = Copied \<and> (c, y) \<in> dependsOn (dependencyTable e)}"

type_synonym loopView = "name list \<times> name list \<times> name list \<times> event list"

definition view :: "state \<Rightarrow> loopView" where
  "view s = (installQueue s, installedComponents s, failedComponents s, console s)"

definition resolveStep :: "(name \<times> name list) list \<Rightarrow> (name \<Rightarrow> outcome) \<Rightarrow> loopView \<Rightarrow> loopView" where
  "resolveStep table out v =
     (case v of (queue, inst, failed, con) \<Rightarrow>
        (case queue of
           [] \<Rightarrow> v
         | c # q \<Rightarrow>
             if c \<in> set inst \<or> c \<in> set failed then (q, inst, failed, con)
             else
               (case out c of
                  SourceMissing \<Rightarrow> (q, inst, failed @ [c], con @ [Adding c, NotFound c])
                | AlreadyPresent \<Rightarrow> (q, inst @ [c], failed, con @ [Adding c, AlreadyExists c])
                | CopyFailed \<Rightarrow> (q, inst, failed @ [c], con @ [Adding c, FailedToAdd c])
                | Copied \<Rightarrow>
                    (case lookupDependencies table c of
                       None \<Rightarrow>
                         (q, inst @ [c], failed @ [c], con @ [Adding c, Added c, FailedToAdd c])
                     | Some deps \<Rightarrow>
                         (q @ newDependencies (inst @ [c]) q deps, inst @ [c], failed,
                          con @ [Adding c, Added c] @
                            map DependencyRequired (newDependencies (inst @ [c]) q deps))))))"

subsection \<open>The rewrite as a mask\<close>

text \<open>
  Both replacements change nothing but quote characters, each into an apostrophe, and
  whether an expression matches at a position does not depend on which of the two quote
  characters the text has. So a replacement is the text with a mask applied: the
  positions of the quotes of its matches. \<open>sk\<close> turns a quote into an apostrophe,
  \<open>applyMask\<close> does so at the masked positions, and \<open>maskUtils\<close> and \<open>maskUi\<close>
  compute the masks by the scans of \<open>replaceUtils\<close> and \<open>replaceUi\<close>.
\<close>

definition sk :: "char \<Rightarrow> char" where
  "sk c = (if isQuote c then CHR 0x27 else c)"

fun applyMask :: "bool list \<Rightarrow> string \<Rightarrow> string" where
  "applyMask (b # bs) (c # cs) = (if b then sk c else c) # applyMask bs cs"
| "applyMask [] cs = cs"
| "applyMask bs [] = []"

function maskUtils :: "string \<Rightarrow> bool list" where
  "maskUtils [] = []"
| "maskUtils (c # cs) =
     (case matchUtils (c # cs) of
        Some rest \<Rightarrow>
          map (\<lambda>_. False) ''from '' @ [True] @ map (\<lambda>_. False) ''@/lib/utils'' @ [True]
            @ maskUtils rest
      | None \<Rightarrow> False # maskUtils cs)"
  by pat_completeness auto
termination
  by (relation "measure length") (auto dest: matchUtils_length)

function maskUi :: "string \<Rightarrow> bool list" where
  "maskUi [] = []"
| "maskUi (c # cs) =
     (case matchUi (c # cs) of
        Some (g, rest) \<Rightarrow>
          map (\<lambda>_. False) ''from '' @ [True] @ map (\<lambda>_. False) (''@/components/ui/'' @ g)
            @ [True] @ maskUi rest
      | None \<Rightarrow> False # maskUi cs)"
  by pat_completeness auto
termination
  by (relation "measure length") (auto dest: matchUi_length)

subsection \<open>Concrete runs\<close>

text \<open>
  Environments and destinations for the runs that the theorems below are evaluated on.
  \<open>sampleEnv table names\<close> has a source for each of \<open>names\<close> and no failing call.
\<close>

definition sampleDir :: dir where
  "sampleDir =
     [(''index.tsx'', ''import { cn } from '' @ [CHR 0x22] @ ''@/lib/utils'' @ [CHR 0x22]),
      (''README.md'', ''from '' @ [CHR 0x22] @ ''@/lib/utils'' @ [CHR 0x22])]"

definition sampleEnv :: "(name \<times> name list) list \<Rightarrow> name list \<Rightarrow> env" where
  "sampleEnv table names =
     \<lparr>force = False,
      dependencyTable = table,
      source = (\<lambda>c. if c \<in> set names then Some sampleDir else None),
      copyThrows = (\<lambda>_. False),
      fileThrows = (\<lambda>_ _. False)\<rparr>"

definition cyclicTable :: "(name \<times> name list) list" where
  "cyclicTable = [(''A'', [''B'']), (''B'', [''A''])]"

definition accordionInstalled :: "name \<Rightarrow> dir option" where
  "accordionInstalled c = (if c = ''Accordion'' then Some [(''index.tsx'', ''old'')] else None)"

definition customInstalled :: "name \<Rightarrow> dir option" where
  "customInstalled c = (if c = ''Custom'' then Some [(''index.tsx'', ''mine'')] else None)"


definition accordionFails :: env where
  "accordionFails =
     \<lparr>force = False,
      dependencyTable = COMPONENT_DEPENDENCIES,
      source = (\<lambda>c. if c \<in> set [''Accordion'', ''Collapsible''] then Some sampleDir else None),
      copyThrows = (\<lambda>c. c = ''Accordion''),
      fileThrows = (\<lambda>_ _. False)\<rparr>"

definition forcingEnv :: env where
  "forcingEnv =
     \<lparr>force = True,
      dependencyTable = COMPONENT_DEPENDENCIES,
      source = (\<lambda>c. if c \<in> set [''Accordion'', ''Collapsible'']
                     then Some [(''main.ts'', ''x'')] else None),
      copyThrows = (\<lambda>_. False),
      fileThrows = (\<lambda>_ _. False)\<rparr>"

section \<open>Lemmas\<close>

subsection \<open>Invariants of the loop\<close>

lemma drain_invariant:
  assumes "I s" and "\<And>s. I s \<Longrightarrow> installQueue s \<noteq> [] \<Longrightarrow> I (iteration e s)"
  shows "I (drain e s)"
  using assms
proof (induction e s rule: drain.induct)
  case (1 e s)
  show ?case
  proof (cases "installQueue s = []")
    case True
    with "1.prems"(1) show ?thesis by (simp add: drain.simps [of e s])
  next
    case False
    have a: "I (iteration e s)" by (rule "1.prems"(2) [OF "1.prems"(1) False])
    have "I (drain e (iteration e s))" by (rule "1.IH" [OF False a "1.prems"(2)])
    with False show ?thesis by (simp add: drain.simps [of e s])
  qed
qed

lemma drain_queue_empty: "installQueue (drain e s) = []"
proof (induction e s rule: drain.induct)
  case (1 e s)
  then show ?case by (cases "installQueue s = []") (simp_all add: drain.simps [of e s])
qed

lemma drain_funpow:
  "\<exists>n. drain e s = (iteration e ^^ n) s \<and> installQueue ((iteration e ^^ n) s) = []"
proof (induction e s rule: drain.induct)
  case (1 e s)
  show ?case
  proof (cases "installQueue s = []")
    case True
    then have "drain e s = (iteration e ^^ 0) s \<and> installQueue ((iteration e ^^ 0) s) = []"
      by (simp add: drain.simps [of e s])
    then show ?thesis by blast
  next
    case False
    from 1 [OF False] obtain n where
      n: "drain e (iteration e s) = (iteration e ^^ n) (iteration e s)"
         "installQueue ((iteration e ^^ n) (iteration e s)) = []"
      by blast
    have "(iteration e ^^ Suc n) s = (iteration e ^^ n) (iteration e s)"
      by (simp add: funpow_swap1)
    with n False have
      "drain e s = (iteration e ^^ Suc n) s \<and> installQueue ((iteration e ^^ Suc n) s) = []"
      by (simp add: drain.simps [of e s])
    then show ?thesis by blast
  qed
qed

lemma add_invariant:
  assumes "I (initialState d components)"
    and "\<And>s c q. I s \<Longrightarrow> installQueue s = c # q \<Longrightarrow> I (iteration e s)"
  shows "I (add e d components)"
  unfolding add_def
proof (rule drain_invariant [where I = I])
  show "I (initialState d components)" by (rule assms(1))
next
  fix s :: state
  assume i: "I s" and "installQueue s \<noteq> []"
  then obtain c q where "installQueue s = c # q"
    by (cases "installQueue s") auto
  with i show "I (iteration e s)" by (rule assms(2))
qed

lemma add_queue_empty: "installQueue (add e d components) = []"
  by (simp add: add_def drain_queue_empty)

subsection \<open>Pushed dependencies and passes\<close>

lemma enqueue_eq:
  "enqueueDependencies s ds =
     s\<lparr>console := console s @
          map DependencyRequired (newDependencies (installedComponents s) (installQueue s) ds),
       installQueue := installQueue s @
          newDependencies (installedComponents s) (installQueue s) ds\<rparr>"
  by (induction ds arbitrary: s) simp_all

lemma set_newDependencies:
  "set (newDependencies inst queue ds) = set ds - set inst - set queue"
  by (induction ds arbitrary: queue) auto

lemma event_not_dep [simp]:
  "Added c \<notin> DependencyRequired ` A" "AlreadyExists c \<notin> DependencyRequired ` A"
  "NotFound c \<notin> DependencyRequired ` A" "Adding c \<notin> DependencyRequired ` A"
  "FailedToAdd c \<notin> DependencyRequired ` A"
  by auto

lemma iteration_skip:
  assumes "installQueue s = c # q" and "c \<in> processed s"
  shows "iteration e s = s\<lparr>installQueue := q\<rparr>"
  using assms(1)
  by (cases rule: iteration_cases [where e = e]) (use assms(2) in auto)

lemma iteration_dest_other:
  assumes "installQueue s = c # q" and "c' \<noteq> c"
  shows "dest (iteration e s) c' = dest s c'"
  using assms(1)
  by (cases rule: iteration_cases [where e = e]) (use assms(2) in \<open>auto simp: enqueue_eq\<close>)

lemma lookup_missing_key:
  "c \<notin> fst ` set table \<Longrightarrow> c \<notin> set objectPrototypeKeys \<Longrightarrow>
     lookupDependencies table c = Some []"
proof -
  assume "c \<notin> fst ` set table" and k: "c \<notin> set objectPrototypeKeys"
  then have "map_of (rev table) c = None"
    by (simp add: map_of_eq_None_iff)
  with k show ?thesis by (simp add: lookupDependencies_def)
qed

lemma inherited_key_iff:
  "lookupDependencies table c = None \<longleftrightarrow>
     c \<notin> fst ` set table \<and> c \<in> set objectPrototypeKeys"
proof (cases "map_of (rev table) c")
  case None
  then have "c \<notin> fst ` set table" by (simp add: map_of_eq_None_iff)
  with None show ?thesis by (simp add: lookupDependencies_def)
next
  case (Some deps)
  then have "c \<in> fst ` set table"
    using map_of_eq_None_iff [of "rev table" c] by simp
  with Some show ?thesis by (simp add: lookupDependencies_def)
qed

lemma missing_key_installed:
  assumes "installQueue s = c # q" and "c \<notin> processed s"
    and "source e c = Some src" and "dest s c = None \<or> force e" and "\<not> copyThrows e c"
    and "snd (rewriteFiles (fileThrows e c) (copyDir src (dest s c) (force e)))"
    and "c \<notin> fst ` set (dependencyTable e)" and "c \<notin> set objectPrototypeKeys"
  shows "installQueue (iteration e s) = q \<and>
         installedComponents (iteration e s) = installedComponents s @ [c] \<and>
         failedComponents (iteration e s) = failedComponents s \<and>
         console (iteration e s) = console s @ [Adding c, Added c]"
proof -
  from assms(7,8) have l: "lookupDependencies (dependencyTable e) c = Some []"
    by (rule lookup_missing_key)
  from assms(1) show ?thesis
    by (cases rule: iteration_cases [where e = e]) (use assms(2-6) l in auto)
qed

lemma rewriteFiles_no_throw: "\<forall>f. \<not> throws f \<Longrightarrow> snd (rewriteFiles throws files)"
  by (induction files) (auto split: prod.splits)

subsection \<open>Attempts\<close>

lemma attempts_append [simp]: "attempts (xs @ ys) = attempts xs @ attempts ys"
  by (induction xs rule: attempts.induct) auto

lemma attempts_map_dep [simp]: "attempts (map DependencyRequired ns) = []"
  by (induction ns) auto

lemma enqueue_attempts [simp]:
  "attempts (console (enqueueDependencies s ds)) = attempts (console s)"
  by (simp add: enqueue_eq)

lemma attempts_invariant:
  assumes inv: "distinct (attempts (console s)) \<and> set (attempts (console s)) = processed s"
    and ne: "installQueue s \<noteq> []"
  shows "distinct (attempts (console (iteration e s))) \<and>
         set (attempts (console (iteration e s))) = processed (iteration e s)"
proof -
  from ne obtain c q where cq: "installQueue s = c # q"
    by (cases "installQueue s") auto
  from inv have d: "distinct (attempts (console s))"
    and p: "set (attempts (console s)) = processed s" by simp_all
  from cq show ?thesis
  proof (cases rule: iteration_cases [where e = e])
    case Skip
    with d p show ?thesis by (simp add: processed_def)
  next
    case Missing
    with d p show ?thesis by (simp add: processed_def)
  next
    case (Exists src)
    with d p show ?thesis by (simp add: processed_def)
  next
    case (CopyThrows src)
    with d p show ?thesis by (simp add: processed_def)
  next
    case (RewriteThrows src files)
    with d p show ?thesis by (simp add: processed_def)
  next
    case (TypeError src files)
    with d p show ?thesis by (simp add: processed_def)
  next
    case (Copied src files deps)
    with d p show ?thesis by (simp add: processed_def)
  qed
qed

lemma attempts_drain:
  "distinct (attempts (console (add e d components))) \<and>
   set (attempts (console (add e d components))) = processed (add e d components)"
  unfolding add_def
proof (rule drain_invariant [where I = "\<lambda>s. distinct (attempts (console s)) \<and>
        set (attempts (console s)) = processed s"])
  show "distinct (attempts (console (initialState d components))) \<and>
        set (attempts (console (initialState d components))) = processed (initialState d components)"
    by (simp add: initialState_def processed_def)
qed (rule attempts_invariant)



lemma requested_processed: "set components \<subseteq> processed (add e d components)"
proof -
  have "set components \<subseteq> set (installQueue (add e d components)) \<union> processed (add e d components)"
  proof (rule add_invariant [where I = "\<lambda>s. set components \<subseteq> set (installQueue s) \<union> processed s"])
    show "set components \<subseteq> set (installQueue (initialState d components))
            \<union> processed (initialState d components)"
      by (simp add: initialState_def)
  next
    fix s :: state and c q
    assume i: "set components \<subseteq> set (installQueue s) \<union> processed s"
      and cq: "installQueue s = c # q"
    from cq show "set components \<subseteq> set (installQueue (iteration e s)) \<union> processed (iteration e s)"
      by (cases rule: iteration_cases [where e = e])
        (use i cq in \<open>auto simp: processed_def enqueue_eq\<close>)
  qed
  then show ?thesis by (simp add: add_queue_empty)
qed


lemma both_sets_only_inherited:
  "c \<in> set (installedComponents (add e d components)) \<Longrightarrow>
   c \<in> set (failedComponents (add e d components)) \<Longrightarrow>
   lookupDependencies (dependencyTable e) c = None"
proof -
  let ?I = "\<lambda>s. \<forall>c. c \<in> set (installedComponents s) \<longrightarrow> c \<in> set (failedComponents s) \<longrightarrow>
              lookupDependencies (dependencyTable e) c = None"
  have "?I (add e d components)"
  proof (rule add_invariant [where I = ?I])
    show "?I (initialState d components)"
      by (simp add: initialState_def)
  next
    fix s :: state and c q
    assume i: "?I s" and cq: "installQueue s = c # q"
    from cq show "?I (iteration e s)"
      by (cases rule: iteration_cases [where e = e]) (use i in \<open>auto simp: processed_def\<close>)
  qed
  then show "c \<in> set (installedComponents (add e d components)) \<Longrightarrow>
   c \<in> set (failedComponents (add e d components)) \<Longrightarrow>
   lookupDependencies (dependencyTable e) c = None"
    by blast
qed

subsection \<open>The processed components are a closure\<close>

lemma followed_subset: "followed e d \<subseteq> dependsOn (dependencyTable e)"
  by (auto simp: followed_def)

lemma iteration_followed:
  assumes cq: "installQueue s = c # q" and np: "c \<notin> processed s" and dc: "dest s c = d c"
  shows "processed (iteration e s) = insert c (processed s) \<and>
         set (installQueue (iteration e s)) \<union> insert c (processed s) =
           set q \<union> insert c (processed s) \<union> followed e d `` {c}"
  using cq
proof (cases rule: iteration_cases [where e = e])
  case Skip
  with np show ?thesis by simp
next
  case Missing
  then show ?thesis
    by (auto simp: processed_def followed_def installOutcome_def)
next
  case (Exists src)
  then show ?thesis using dc
    by (auto simp: processed_def followed_def installOutcome_def)
next
  case (CopyThrows src)
  then show ?thesis using dc
    by (auto simp: processed_def followed_def installOutcome_def)
next
  case (RewriteThrows src files)
  then show ?thesis using dc
    by (auto simp: processed_def followed_def installOutcome_def)
next
  case (TypeError src files)
  then show ?thesis using dc
    by (auto simp: processed_def followed_def installOutcome_def dependsOn_def)
next
  case (Copied src files deps)
  then have o: "installOutcome e d c = outcome.Copied"
    using dc by (auto simp: installOutcome_def)
  from Copied o show ?thesis
    by (auto simp: processed_def followed_def dependsOn_def enqueue_eq set_newDependencies)
qed

lemma closure_invariant:
  fixes e :: env and d :: "name \<Rightarrow> dir option" and components :: "name list"
  defines "R \<equiv> (followed e d)\<^sup>* `` set components"
  assumes a: "\<forall>c. c \<notin> processed s \<longrightarrow> dest s c = d c"
    and b: "set (installQueue s) \<union> processed s \<subseteq> R"
    and c: "set components \<subseteq> set (installQueue s) \<union> processed s"
    and d: "followed e d `` processed s \<subseteq> set (installQueue s) \<union> processed s"
    and cq: "installQueue s = x # q"
  shows "(\<forall>c. c \<notin> processed (iteration e s) \<longrightarrow> dest (iteration e s) c = d c) \<and>
         set (installQueue (iteration e s)) \<union> processed (iteration e s) \<subseteq> R \<and>
         set components \<subseteq> set (installQueue (iteration e s)) \<union> processed (iteration e s) \<and>
         followed e d `` processed (iteration e s)
           \<subseteq> set (installQueue (iteration e s)) \<union> processed (iteration e s)"
proof (cases "x \<in> processed s")
  case True
  from iteration_skip [OF cq True, of e] have "iteration e s = s\<lparr>installQueue := q\<rparr>" .
  with a b c d cq True show ?thesis
    by (auto simp: processed_def)
next
  case False
  with a have dx: "dest s x = d x" by simp
  from iteration_followed [where d = d and e = e, OF cq False dx]
  have p: "processed (iteration e s) = insert x (processed s)"
    and qe: "set (installQueue (iteration e s)) \<union> insert x (processed s) =
           set q \<union> insert x (processed s) \<union> followed e d `` {x}"
    by simp_all
  have xR: "x \<in> R" using b cq by auto
  have closed: "followed e d `` R \<subseteq> R"
    unfolding R_def by (auto intro: rtrancl_into_rtrancl)
  have 1: "\<forall>c. c \<notin> processed (iteration e s) \<longrightarrow> dest (iteration e s) c = d c"
    using a p iteration_dest_other [OF cq, of _ e] by auto
  have 2: "set (installQueue (iteration e s)) \<union> processed (iteration e s) \<subseteq> R"
  proof -
    have "set (installQueue (iteration e s)) \<union> processed (iteration e s)
            = set q \<union> insert x (processed s) \<union> followed e d `` {x}"
      using p qe by auto
    also have "\<dots> \<subseteq> R" using b cq xR closed by auto
    finally show ?thesis .
  qed
  have 3: "set components \<subseteq> set (installQueue (iteration e s)) \<union> processed (iteration e s)"
    using c cq p qe by auto
  have 4: "followed e d `` processed (iteration e s)
           \<subseteq> set (installQueue (iteration e s)) \<union> processed (iteration e s)"
  proof -
    have "followed e d `` processed (iteration e s)
            = followed e d `` {x} \<union> followed e d `` processed s"
      using p by auto
    also have "\<dots> \<subseteq> set q \<union> insert x (processed s) \<union> followed e d `` {x}"
      using d cq by auto
    also have "\<dots> = set (installQueue (iteration e s)) \<union> processed (iteration e s)"
      using p qe by auto
    finally show ?thesis .
  qed
  from 1 2 3 4 show ?thesis by blast
qed

lemma closure_processed:
  "processed (add e d components) = (followed e d)\<^sup>* `` set components"
proof -
  let ?R = "(followed e d)\<^sup>* `` set components"
  let ?I = "\<lambda>s. (\<forall>c. c \<notin> processed s \<longrightarrow> dest s c = d c) \<and>
         set (installQueue s) \<union> processed s \<subseteq> ?R \<and>
         set components \<subseteq> set (installQueue s) \<union> processed s \<and>
         followed e d `` processed s \<subseteq> set (installQueue s) \<union> processed s"
  have "?I (add e d components)"
  proof (rule add_invariant [where I = ?I])
    show "?I (initialState d components)"
      by (auto simp: initialState_def processed_def)
  next
    fix s :: state and c q
    assume "?I s" and "installQueue s = c # q"
    then show "?I (iteration e s)"
      using closure_invariant [where s = s and e = e and d = d and components = components
          and x = c and q = q] by blast
  qed
  then have sub: "processed (add e d components) \<subseteq> ?R"
    and req: "set components \<subseteq> processed (add e d components)"
    and cl: "followed e d `` processed (add e d components) \<subseteq> processed (add e d components)"
    by (simp_all add: add_queue_empty)
  have "?R \<subseteq> processed (add e d components)"
  proof
    fix y assume "y \<in> ?R"
    then obtain x where x: "x \<in> set components" and xy: "(x, y) \<in> (followed e d)\<^sup>*"
      by auto
    from xy show "y \<in> processed (add e d components)"
    proof (induction rule: rtrancl_induct)
      case base
      with x req show ?case by auto
    next
      case (step y z)
      with cl show ?case by auto
    qed
  qed
  with sub show ?thesis by auto
qed

lemma closure_all_copied:
  assumes "\<forall>c\<in>(dependsOn (dependencyTable e))\<^sup>* `` S. installOutcome e d c = Copied"
  shows "(followed e d)\<^sup>* `` S = (dependsOn (dependencyTable e))\<^sup>* `` S"
proof
  show "(followed e d)\<^sup>* `` S \<subseteq> (dependsOn (dependencyTable e))\<^sup>* `` S"
    using rtrancl_mono [OF followed_subset [of e d]] by auto
next
  show "(dependsOn (dependencyTable e))\<^sup>* `` S \<subseteq> (followed e d)\<^sup>* `` S"
  proof
    fix y assume "y \<in> (dependsOn (dependencyTable e))\<^sup>* `` S"
    then obtain x where x: "x \<in> S" and xy: "(x, y) \<in> (dependsOn (dependencyTable e))\<^sup>*"
      by auto
    from xy have "(x, y) \<in> (followed e d)\<^sup>*"
    proof (induction rule: rtrancl_induct)
      case base
      show ?case by simp
    next
      case (step y z)
      from step(1) x have "y \<in> (dependsOn (dependencyTable e))\<^sup>* `` S" by auto
      with assms have "installOutcome e d y = Copied" by blast
      with step(2) have "(y, z) \<in> followed e d" by (simp add: followed_def)
      with step(3) show ?case by (rule rtrancl_into_rtrancl)
    qed
    with x show "y \<in> (followed e d)\<^sup>* `` S" by auto
  qed
qed

lemma dependsOn_table: "dependsOn COMPONENT_DEPENDENCIES = {(''Accordion'', ''Collapsible'')}"
  by (auto simp: dependsOn_def lookupDependencies_def COMPONENT_DEPENDENCIES_def
      split: if_splits)

lemma closure_accordion:
  "(dependsOn COMPONENT_DEPENDENCIES)\<^sup>* `` set [''Accordion''] = {''Accordion'', ''Collapsible''}"
  by (auto simp: dependsOn_table rtrancl_insert)

subsection \<open>The loop on the view\<close>

lemma iteration_view:
  assumes "\<forall>c. c \<notin> processed s \<longrightarrow> dest s c = d c"
  shows "view (iteration e s) = resolveStep (dependencyTable e) (installOutcome e d) (view s)"
proof (cases "installQueue s")
  case Nil
  then show ?thesis by (simp add: iteration_def view_def resolveStep_def)
next
  case (Cons c q)
  then show ?thesis
  proof (cases rule: iteration_cases [where e = e])
    case Skip
    with Cons show ?thesis by (auto simp: view_def resolveStep_def processed_def)
  next
    case Missing
    with Cons show ?thesis
      by (simp add: view_def resolveStep_def processed_def installOutcome_def)
  next
    case (Exists src)
    with Cons assms show ?thesis
      by (simp add: view_def resolveStep_def processed_def installOutcome_def)
  next
    case (CopyThrows src)
    with Cons assms have "installOutcome e d c = CopyFailed"
      by (auto simp: installOutcome_def)
    with Cons CopyThrows show ?thesis
      by (simp add: view_def resolveStep_def processed_def)
  next
    case (RewriteThrows src files)
    with Cons assms have "installOutcome e d c = CopyFailed"
      by (auto simp: installOutcome_def)
    with Cons RewriteThrows show ?thesis
      by (simp add: view_def resolveStep_def processed_def)
  next
    case (TypeError src files)
    with Cons assms have "installOutcome e d c = Copied"
      by (auto simp: installOutcome_def)
    with Cons TypeError show ?thesis
      by (simp add: view_def resolveStep_def processed_def)
  next
    case (Copied src files deps)
    with Cons assms have "installOutcome e d c = outcome.Copied"
      by (auto simp: installOutcome_def)
    with Cons Copied show ?thesis
      by (simp add: view_def resolveStep_def processed_def enqueue_eq)
  qed
qed

lemma iteration_dest_unprocessed:
  assumes "\<forall>c. c \<notin> processed s \<longrightarrow> dest s c = d c"
  shows "\<forall>c. c \<notin> processed (iteration e s) \<longrightarrow> dest (iteration e s) c = d c"
proof (cases "installQueue s")
  case Nil
  with assms show ?thesis by (simp add: iteration_def)
next
  case (Cons x q)
  show ?thesis
  proof (cases "x \<in> processed s")
    case True
    from iteration_skip [OF Cons True, of e] assms show ?thesis
      by (simp add: processed_def)
  next
    case False
    with assms have "dest s x = d x" by simp
    from iteration_followed [where d = d and e = e, OF Cons False this]
    have "processed (iteration e s) = insert x (processed s)" by simp
    with assms iteration_dest_other [OF Cons, of _ e] show ?thesis by auto
  qed
qed

lemma drain_view:
  assumes "view s1 = view s2"
    and "\<forall>c. c \<notin> processed s1 \<longrightarrow> dest s1 c = d1 c"
    and "\<forall>c. c \<notin> processed s2 \<longrightarrow> dest s2 c = d2 c"
    and "dependencyTable e1 = dependencyTable e2"
    and "installOutcome e1 d1 = installOutcome e2 d2"
  shows "view (drain e1 s1) = view (drain e2 s2)"
  using assms
proof (induction e1 s1 arbitrary: s2 rule: drain.induct)
  case (1 e1 s1)
  show ?case
  proof (cases "installQueue s1 = []")
    case True
    with "1.prems"(1) have "installQueue s2 = []" by (simp add: view_def)
    with True "1.prems"(1) show ?thesis
      by (simp add: drain.simps [of e1 s1] drain.simps [of e2 s2])
  next
    case False
    with "1.prems"(1) have ne2: "installQueue s2 \<noteq> []" by (simp add: view_def)
    have v: "view (iteration e1 s1) = view (iteration e2 s2)"
      using iteration_view [OF "1.prems"(2), of e1] iteration_view [OF "1.prems"(3), of e2]
        "1.prems"(1,4,5)
      by simp
    have "view (drain e1 (iteration e1 s1)) = view (drain e2 (iteration e2 s2))"
      by (rule "1.IH" [OF False v iteration_dest_unprocessed [OF "1.prems"(2)]
            iteration_dest_unprocessed [OF "1.prems"(3)] "1.prems"(4,5)])
    with False ne2 show ?thesis
      by (simp add: drain.simps [of e1 s1] drain.simps [of e2 s2])
  qed
qed

subsection \<open>The rewrite changes quotes only\<close>

lemma isQuote_sk [simp]: "isQuote (sk c) = isQuote c"
  by (simp add: sk_def isQuote_def)

lemma sk_sk [simp]: "sk (sk c) = sk c"
  by (simp add: sk_def isQuote_def)

lemma sk_not_quote: "\<not> isQuote c \<Longrightarrow> sk c = c"
  by (simp add: sk_def)

lemma sk_quote: "isQuote c \<Longrightarrow> sk c = CHR 0x27"
  by (simp add: sk_def)

lemma applyMask_False:
  "applyMask (map (\<lambda>_. False) xs @ m) (xs @ ys) = xs @ applyMask m ys"
  by (induction xs) auto

lemma map_sk_applyMask: "map sk (applyMask m x) = map sk x"
  by (induction m x rule: applyMask.induct) auto

lemma applyMask_idem: "applyMask m (applyMask m x) = applyMask m x"
  by (induction m x rule: applyMask.induct) auto

lemma applyMask_twice:
  "applyMask m (applyMask m' (applyMask m (applyMask m' x))) = applyMask m (applyMask m' x)"
proof (induction x arbitrary: m m')
  case Nil
  show ?case by (cases m; cases m') simp_all
next
  case (Cons c cs)
  show ?case
  proof (cases m)
    case Nil
    then show ?thesis by (simp add: applyMask_idem)
  next
    case mc: (Cons b bs)
    show ?thesis
    proof (cases m')
      case Nil
      then show ?thesis by (simp add: applyMask_idem)
    next
      case mc': (Cons b' bs')
      show ?thesis
        unfolding mc mc' using Cons.IH [of bs bs'] by (cases b; cases b') simp_all
    qed
  qed
qed

lemma replaceUtils_mask: "replaceUtils x = applyMask (maskUtils x) x"
proof (induction x rule: replaceUtils.induct)
  case 1
  show ?case by simp
next
  case (2 c cs)
  show ?case
  proof (cases "matchUtils (c # cs)")
    case None
    with 2 show ?thesis by simp
  next
    case (Some rest)
    from matchUtils_Some [OF Some] obtain q q' where
      q: "isQuote q" "isQuote q'" and s: "c # cs = ''from '' @ q # ''@/lib/utils'' @ q' # rest"
      by blast
    have "applyMask (maskUtils (c # cs)) (c # cs) =
          applyMask (map (\<lambda>_. False) ''from '' @ True # map (\<lambda>_. False) ''@/lib/utils'' @ True # maskUtils rest)
            (''from '' @ q # ''@/lib/utils'' @ q' # rest)"
      using Some s by simp
    also have "\<dots> = ''from '' @ sk q # ''@/lib/utils'' @ sk q' # applyMask (maskUtils rest) rest"
      by simp
    finally show ?thesis
      using 2 Some q by (simp add: sk_quote)
  qed
qed

lemma replaceUi_mask: "replaceUi x = applyMask (maskUi x) x"
proof (induction x rule: replaceUi.induct)
  case 1
  show ?case by simp
next
  case (2 c cs)
  show ?case
  proof (cases "matchUi (c # cs)")
    case None
    with 2 show ?thesis by simp
  next
    case (Some p)
    obtain g rest where p: "p = (g, rest)" by (cases p)
    from matchUi_Some [OF Some [unfolded p]] obtain q q' where
      q: "isQuote q" "isQuote q'"
      and s: "c # cs = ''from '' @ q # ''@/components/ui/'' @ g @ q' # rest"
      by blast
    have "applyMask (maskUi (c # cs)) (c # cs) =
          applyMask (map (\<lambda>_. False) ''from '' @ True # map (\<lambda>_. False) (''@/components/ui/'' @ g) @ True # maskUi rest)
            (''from '' @ q # (''@/components/ui/'' @ g) @ q' # rest)"
      using Some p s by simp
    also have "\<dots> = ''from '' @ sk q # (''@/components/ui/'' @ g) @ sk q' # applyMask (maskUi rest) rest"
      unfolding applyMask_False applyMask.simps by simp
    finally show ?thesis
      using 2 Some p q by (simp add: sk_quote)
  qed
qed

lemma sk_eq_iff: "\<not> isQuote p \<Longrightarrow> (p = sk c) = (p = c)"
  by (auto simp: sk_def isQuote_def)

lemma stripPrefix_map_sk:
  "\<forall>c\<in>set p. \<not> isQuote c \<Longrightarrow>
     stripPrefix p (map sk s) = map_option (map sk) (stripPrefix p s)"
  by (induction p s rule: stripPrefix.induct) (auto simp: sk_eq_iff)

lemma takeWhile_map_sk:
  "takeWhile (\<lambda>c. \<not> isQuote c) (map sk t) = takeWhile (\<lambda>c. \<not> isQuote c) t"
  by (induction t) (auto simp: sk_not_quote)

lemma dropWhile_map_sk:
  "dropWhile (\<lambda>c. \<not> isQuote c) (map sk t) = map sk (dropWhile (\<lambda>c. \<not> isQuote c) t)"
  by (induction t) auto

lemma from_no_quote: "\<forall>c\<in>set ''from ''. \<not> isQuote c"
  by (simp add: isQuote_def)

lemma utils_no_quote: "\<forall>c\<in>set ''@/lib/utils''. \<not> isQuote c"
  by (simp add: isQuote_def)

lemma ui_no_quote: "\<forall>c\<in>set ''@/components/ui/''. \<not> isQuote c"
  by (simp add: isQuote_def)

lemma takeQuote_map_sk: "takeQuote (map sk s) = map_option (map sk) (takeQuote s)"
  by (cases s) (simp_all add: takeQuote_def)

lemma takeName_map_sk:
  "takeName (map sk s) = map_option (\<lambda>(g, u). (g, map sk u)) (takeName s)"
  by (simp add: takeName_def takeWhile_map_sk dropWhile_map_sk split: list.splits)

lemma matchUtils_map_sk: "matchUtils (map sk s) = map_option (map sk) (matchUtils s)"
  unfolding matchUtils_def
  by (simp add: stripPrefix_map_sk [OF from_no_quote] stripPrefix_map_sk [OF utils_no_quote]
      takeQuote_map_sk bind_map_option map_option_bind o_def)

lemma matchUi_map_sk:
  "matchUi (map sk s) = map_option (\<lambda>(g, r). (g, map sk r)) (matchUi s)"
  unfolding matchUi_def
  by (simp add: stripPrefix_map_sk [OF from_no_quote] stripPrefix_map_sk [OF ui_no_quote]
      takeQuote_map_sk takeName_map_sk bind_map_option map_option_bind o_def split_def)

lemma maskUtils_map_sk: "maskUtils (map sk x) = maskUtils x"
proof (induction x rule: maskUtils.induct)
  case 1
  show ?case by simp
next
  case (2 c cs)
  have m: "matchUtils (sk c # map sk cs) = map_option (map sk) (matchUtils (c # cs))"
    using matchUtils_map_sk [of "c # cs"] by simp
  show ?case
  proof (cases "matchUtils (c # cs)")
    case None
    with 2 m show ?thesis by simp
  next
    case (Some rest)
    with 2 m show ?thesis by simp
  qed
qed

lemma maskUi_map_sk: "maskUi (map sk x) = maskUi x"
proof (induction x rule: maskUi.induct)
  case 1
  show ?case by simp
next
  case (2 c cs)
  have m: "matchUi (sk c # map sk cs) = map_option (\<lambda>(g, r). (g, map sk r)) (matchUi (c # cs))"
    using matchUi_map_sk [of "c # cs"] by simp
  show ?case
  proof (cases "matchUi (c # cs)")
    case None
    with 2 m show ?thesis by simp
  next
    case (Some p)
    with 2 m show ?thesis by (cases p) simp
  qed
qed

lemma maskUtils_cong: "map sk x = map sk y \<Longrightarrow> maskUtils x = maskUtils y"
  using maskUtils_map_sk [of x] maskUtils_map_sk [of y] by simp

lemma maskUi_cong: "map sk x = map sk y \<Longrightarrow> maskUi x = maskUi y"
  using maskUi_map_sk [of x] maskUi_map_sk [of y] by simp

section \<open>The claims\<close>

subsection \<open>C1: at most once\<close>

text \<open>
  C1: no component is ever in both the installed and the failed set, and the install
  attempt is made at most once for a component. The second part holds
  (\<open>attempts_drain\<close>). The first part fails for a component whose name is a property
  that the table inherits from \<^verbatim>\<open>Object.prototype\<close> (\<open>both_sets_only_inherited\<close>: for
  such names only). For \<^verbatim>\<open>constructor\<close> with a source: the copy succeeds, line 421 adds
  the component to the installed set, \<^verbatim>\<open>COMPONENT_DEPENDENCIES['constructor']\<close> is a
  function, the \<^verbatim>\<open>for...of\<close> of line 425 throws, and the \<^verbatim>\<open>catch\<close> block adds the
  component to the failed set. The theorem is that run.
\<close>

theorem constructor_in_both_sets:
  "installedComponents
     (add (sampleEnv COMPONENT_DEPENDENCIES [''constructor'']) (\<lambda>_. None) [''constructor''])
     = [''constructor''] \<and>
   failedComponents
     (add (sampleEnv COMPONENT_DEPENDENCIES [''constructor'']) (\<lambda>_. None) [''constructor''])
     = [''constructor'']"
  by code_simp

subsection \<open>C2: the closure of the requested components\<close>

text \<open>
  C2, as stated, fails: for every acyclic table, the installed and failed components
  together are all the components reachable from the requested ones. The table of the
  source is acyclic and \<^verbatim>\<open>Collapsible\<close> is reachable from \<^verbatim>\<open>Accordion\<close>; when the copy
  of \<^verbatim>\<open>Accordion\<close> throws, \<^verbatim>\<open>Accordion\<close> alone is in the failed set and nothing is
  installed, though \<^verbatim>\<open>Collapsible\<close> has a source.
\<close>

theorem closure_not_complete:
  "acyclic (dependsOn COMPONENT_DEPENDENCIES) \<and>
   ''Collapsible'' \<in> (dependsOn COMPONENT_DEPENDENCIES)\<^sup>* `` set [''Accordion''] \<and>
   source accordionFails ''Collapsible'' = Some sampleDir \<and>
   installedComponents (add accordionFails (\<lambda>_. None) [''Accordion'']) = [] \<and>
   failedComponents (add accordionFails (\<lambda>_. None) [''Accordion'']) = [''Accordion'']"
proof -
  have "acyclic (dependsOn COMPONENT_DEPENDENCIES)"
    unfolding dependsOn_table by (subst acyclic_insert) (simp add: acyclic_def)
  moreover have "source accordionFails ''Collapsible'' = Some sampleDir"
    by (simp add: accordionFails_def)
  moreover have "installedComponents (add accordionFails (\<lambda>_. None) [''Accordion'']) = []"
    by code_simp
  moreover have "failedComponents (add accordionFails (\<lambda>_. None) [''Accordion'']) = [''Accordion'']"
    by code_simp
  moreover have "''Collapsible'' \<in> (dependsOn COMPONENT_DEPENDENCIES)\<^sup>* `` set [''Accordion'']"
    unfolding closure_accordion by simp
  ultimately show ?thesis by (intro conjI)
qed

text \<open>
  C2, amended: for every table and every requested list, the installed and failed
  components together are the components reachable from the requested ones along the
  dependencies of copied components: the dependencies of a component that failed, or
  that was skipped because it exists at the destination, are not followed. They are
  among the components reachable in the table, and they are all of these when each of
  these is copied.
\<close>

theorem closure_of_copied:
  "set (installedComponents (add e d components)) \<union> set (failedComponents (add e d components))
     = (followed e d)\<^sup>* `` set components \<and>
   set (installedComponents (add e d components)) \<union> set (failedComponents (add e d components))
     \<subseteq> (dependsOn (dependencyTable e))\<^sup>* `` set components \<and>
   ((\<forall>c\<in>(dependsOn (dependencyTable e))\<^sup>* `` set components. installOutcome e d c = Copied) \<longrightarrow>
      set (installedComponents (add e d components)) \<union> set (failedComponents (add e d components))
        = (dependsOn (dependencyTable e))\<^sup>* `` set components)"
proof -
  have 1: "set (installedComponents (add e d components)) \<union>
           set (failedComponents (add e d components)) = (followed e d)\<^sup>* `` set components"
    using closure_processed [of e d components] by (simp add: processed_def)
  have 2: "(followed e d)\<^sup>* `` set components
             \<subseteq> (dependsOn (dependencyTable e))\<^sup>* `` set components"
    using rtrancl_mono [OF followed_subset [of e d]] by auto
  show ?thesis
  proof (intro conjI impI)
    show "set (installedComponents (add e d components)) \<union>
           set (failedComponents (add e d components)) = (followed e d)\<^sup>* `` set components"
      by (rule 1)
    show "set (installedComponents (add e d components)) \<union>
           set (failedComponents (add e d components))
            \<subseteq> (dependsOn (dependencyTable e))\<^sup>* `` set components"
      unfolding 1 by (rule 2)
    assume "\<forall>c\<in>(dependsOn (dependencyTable e))\<^sup>* `` set components. installOutcome e d c = Copied"
    then show "set (installedComponents (add e d components)) \<union>
           set (failedComponents (add e d components))
            = (dependsOn (dependencyTable e))\<^sup>* `` set components"
      unfolding 1 by (rule closure_all_copied)
  qed
qed

theorem closure_of_copied_witness:
  "set (installedComponents
         (add (sampleEnv COMPONENT_DEPENDENCIES [''Accordion'', ''Collapsible'']) (\<lambda>_. None)
            [''Accordion''])) \<union>
   set (failedComponents
         (add (sampleEnv COMPONENT_DEPENDENCIES [''Accordion'', ''Collapsible'']) (\<lambda>_. None)
            [''Accordion'']))
     = {''Accordion'', ''Collapsible''} \<and>
   set (installedComponents (add accordionFails (\<lambda>_. None) [''Accordion''])) \<union>
   set (failedComponents (add accordionFails (\<lambda>_. None) [''Accordion'']))
     = (followed accordionFails (\<lambda>_. None))\<^sup>* `` set [''Accordion'']"
proof -
  let ?e = "sampleEnv COMPONENT_DEPENDENCIES [''Accordion'', ''Collapsible'']"
  have t: "dependencyTable ?e = COMPONENT_DEPENDENCIES" by (simp add: sampleEnv_def)
  have "\<forall>c\<in>{''Accordion'', ''Collapsible''}. installOutcome ?e (\<lambda>_. None) c = Copied"
    by (simp add: installOutcome_def sampleEnv_def rewriteFiles_no_throw)
  then have h: "\<forall>c\<in>(dependsOn (dependencyTable ?e))\<^sup>* `` set [''Accordion''].
                  installOutcome ?e (\<lambda>_. None) c = Copied"
    by (simp only: t closure_accordion)
  have 1: "set (installedComponents (add ?e (\<lambda>_. None) [''Accordion''])) \<union>
           set (failedComponents (add ?e (\<lambda>_. None) [''Accordion'']))
           = (dependsOn (dependencyTable ?e))\<^sup>* `` set [''Accordion'']"
    by (rule closure_of_copied [of ?e "\<lambda>_. None" "[''Accordion'']",
          THEN conjunct2, THEN conjunct2, THEN mp, OF h])
  have 2: "set (installedComponents (add accordionFails (\<lambda>_. None) [''Accordion''])) \<union>
   set (failedComponents (add accordionFails (\<lambda>_. None) [''Accordion'']))
     = (followed accordionFails (\<lambda>_. None))\<^sup>* `` set [''Accordion'']"
    by (rule closure_of_copied [of accordionFails "\<lambda>_. None" "[''Accordion'']", THEN conjunct1])
  from 1 have 3: "set (installedComponents (add ?e (\<lambda>_. None) [''Accordion''])) \<union>
           set (failedComponents (add ?e (\<lambda>_. None) [''Accordion'']))
           = {''Accordion'', ''Collapsible''}"
    by (simp only: t closure_accordion)
  from 3 2 show ?thesis by (rule conjI)
qed

subsection \<open>C3: a component that exists at the destination\<close>

text \<open>
  C3, as stated, fails: a component that exists at the destination, without
  \<^verbatim>\<open>--force\<close>, is added to the installed set and its dependencies that are neither
  installed nor queued are appended to the queue. \<^verbatim>\<open>Accordion\<close> exists at the
  destination, its dependency \<^verbatim>\<open>Collapsible\<close> is neither installed nor queued, and
  after the pass the queue is empty: the \<^verbatim>\<open>continue\<close> of line 391 comes before the
  lookup of line 424. The run ends without an attempt for \<^verbatim>\<open>Collapsible\<close>.
\<close>

theorem existing_component_dependencies_not_enqueued:
  "lookupDependencies COMPONENT_DEPENDENCIES ''Accordion'' = Some [''Collapsible''] \<and>
   ''Collapsible'' \<notin> set (installQueue (initialState accordionInstalled [''Accordion''])) \<and>
   ''Collapsible'' \<notin> set (installedComponents (initialState accordionInstalled [''Accordion''])) \<and>
   installedComponents
     (iteration (sampleEnv COMPONENT_DEPENDENCIES [''Accordion'', ''Collapsible''])
        (initialState accordionInstalled [''Accordion''])) = [''Accordion''] \<and>
   installQueue
     (iteration (sampleEnv COMPONENT_DEPENDENCIES [''Accordion'', ''Collapsible''])
        (initialState accordionInstalled [''Accordion''])) = [] \<and>
   console
     (add (sampleEnv COMPONENT_DEPENDENCIES [''Accordion'', ''Collapsible''])
        accordionInstalled [''Accordion'']) = [Adding ''Accordion'', AlreadyExists ''Accordion'']"
  by code_simp

text \<open>
  C3, amended: a component taken from the queue that is in neither set and exists at the
  destination, without \<^verbatim>\<open>--force\<close>: when it has a source, it is added to the
  installed set with a warning; when it has none, it is reported as not found and added
  to the failed set (the test of line 378 comes first). Either way the queue is what
  was left of it: its dependencies are not looked up and nothing is appended; and
  nothing else changes.
\<close>

theorem existing_component_is_skipped:
  assumes "installQueue s = c # q" and "c \<notin> processed s"
    and "dest s c \<noteq> None" and "\<not> force e"
  shows "(source e c \<noteq> None \<longrightarrow>
            iteration e s =
              s\<lparr>installQueue := q,
                console := console s @ [Adding c, AlreadyExists c],
                installedComponents := installedComponents s @ [c]\<rparr>) \<and>
         (source e c = None \<longrightarrow>
            iteration e s =
              s\<lparr>installQueue := q,
                console := console s @ [Adding c, NotFound c],
                failedComponents := failedComponents s @ [c]\<rparr>)"
  using assms(1)
  by (cases rule: iteration_cases [where e = e]) (use assms in auto)

theorem existing_component_is_skipped_witness:
  "iteration (sampleEnv COMPONENT_DEPENDENCIES [''Accordion'', ''Collapsible''])
     (initialState accordionInstalled [''Accordion'', ''Button'']) =
   \<lparr>installQueue = [''Button''], installedComponents = [''Accordion''], failedComponents = [],
    dest = accordionInstalled, console = [Adding ''Accordion'', AlreadyExists ''Accordion'']\<rparr> \<and>
   iteration (sampleEnv COMPONENT_DEPENDENCIES [''Collapsible''])
     (initialState accordionInstalled [''Accordion'', ''Button'']) =
   \<lparr>installQueue = [''Button''], installedComponents = [], failedComponents = [''Accordion''],
    dest = accordionInstalled, console = [Adding ''Accordion'', NotFound ''Accordion'']\<rparr>"
proof -
  let ?e = "sampleEnv COMPONENT_DEPENDENCIES [''Accordion'', ''Collapsible'']"
  let ?e' = "sampleEnv COMPONENT_DEPENDENCIES [''Collapsible'']"
  let ?s = "initialState accordionInstalled [''Accordion'', ''Button'']"
  have 1: "installQueue ?s = ''Accordion'' # [''Button'']" by (simp add: initialState_def)
  have 2: "''Accordion'' \<notin> processed ?s" by (simp add: initialState_def processed_def)
  have 3: "source ?e ''Accordion'' \<noteq> None" by (simp add: sampleEnv_def)
  have 6: "source ?e' ''Accordion'' = None" by (simp add: sampleEnv_def)
  have 4: "dest ?s ''Accordion'' \<noteq> None" by (simp add: initialState_def accordionInstalled_def)
  have 5: "\<not> force ?e" by (simp add: sampleEnv_def)
  have 7: "\<not> force ?e'" by (simp add: sampleEnv_def)
  from existing_component_is_skipped [OF 1 2 4 5] 3
    existing_component_is_skipped [OF 1 2 4 7] 6
  show ?thesis
    by (simp add: initialState_def)
qed

subsection \<open>C4: termination\<close>

text \<open>
  C4: for every requested list and every table, cyclic ones included, the loop
  terminates: some number of passes empties the queue, and the state then is the result
  of \<open>add\<close>; and no component is attempted twice. (\<open>drain\<close> is total: its termination
  is proved where it is defined.)
\<close>

theorem resolution_terminates:
  "(\<exists>n. installQueue ((iteration e ^^ n) (initialState d components)) = [] \<and>
        add e d components = (iteration e ^^ n) (initialState d components)) \<and>
   distinct (attempts (console (add e d components)))"
  using drain_funpow [of e "initialState d components"] attempts_drain [of e d components]
  by (auto simp: add_def)

theorem resolution_terminates_witness:
  "(\<exists>n. installQueue ((iteration (sampleEnv cyclicTable [''A'', ''B'']) ^^ n)
           (initialState (\<lambda>_. None) [''A''])) = [] \<and>
        add (sampleEnv cyclicTable [''A'', ''B'']) (\<lambda>_. None) [''A''] =
          (iteration (sampleEnv cyclicTable [''A'', ''B'']) ^^ n)
            (initialState (\<lambda>_. None) [''A''])) \<and>
   distinct (attempts (console (add (sampleEnv cyclicTable [''A'', ''B'']) (\<lambda>_. None) [''A'']))) \<and>
   attempts (console (add (sampleEnv cyclicTable [''A'', ''B'']) (\<lambda>_. None) [''A''])) =
     [''A'', ''B''] \<and>
   installedComponents (add (sampleEnv cyclicTable [''A'', ''B'']) (\<lambda>_. None) [''A'']) =
     [''A'', ''B'']"
proof -
  have "attempts (console (add (sampleEnv cyclicTable [''A'', ''B'']) (\<lambda>_. None) [''A''])) =
     [''A'', ''B'']"
    by code_simp
  moreover have
    "installedComponents (add (sampleEnv cyclicTable [''A'', ''B'']) (\<lambda>_. None) [''A'']) =
     [''A'', ''B'']"
    by code_simp
  ultimately show ?thesis
    using resolution_terminates [of "sampleEnv cyclicTable [''A'', ''B'']" "\<lambda>_. None" "[''A'']"]
    by simp
qed

subsection \<open>C5: failure isolation\<close>




subsection \<open>C6: a missing source\<close>

text \<open>
  C6: a requested component without a source ends in the failed set and not in the
  installed set, with the message that it was not found; the run goes on: the queue is
  emptied and every requested component is processed. With \<^verbatim>\<open>Ghost\<close> requested and
  no source for it, nothing is installed and \<^verbatim>\<open>Ghost\<close> is the failed set.
\<close>

theorem missing_source_fails:
  assumes "c \<in> set components" and "source e c = None"
  shows "c \<in> set (failedComponents (add e d components)) \<and>
         c \<notin> set (installedComponents (add e d components)) \<and>
         NotFound c \<in> set (console (add e d components)) \<and>
         installQueue (add e d components) = [] \<and>
         set components \<subseteq> processed (add e d components)"
proof -
  let ?I = "\<lambda>s. c \<notin> set (installedComponents s) \<and>
              (if c \<in> set (failedComponents s) then NotFound c \<in> set (console s)
               else c \<in> set (installQueue s))"
  have "?I (add e d components)"
  proof (rule add_invariant [where I = ?I])
    show "?I (initialState d components)"
      using assms(1) by (simp add: initialState_def)
  next
    fix s :: state and c' q
    assume i: "?I s" and cq: "installQueue s = c' # q"
    from cq show "?I (iteration e s)"
    proof (cases rule: iteration_cases [where e = e])
      case Skip
      with i cq show ?thesis by (auto simp: processed_def split: if_splits)
    next
      case Missing
      with i cq show ?thesis by (auto simp: processed_def split: if_splits)
    next
      case (Exists src)
      with i cq assms(2) show ?thesis by (auto simp: processed_def split: if_splits)
    next
      case (CopyThrows src)
      with i cq assms(2) show ?thesis by (auto simp: processed_def split: if_splits)
    next
      case (RewriteThrows src files)
      with i cq assms(2) show ?thesis by (auto simp: processed_def split: if_splits)
    next
      case (TypeError src files)
      with i cq assms(2) show ?thesis by (auto simp: processed_def split: if_splits)
    next
      case (Copied src files deps)
      with i cq assms(2) show ?thesis
        by (auto simp: processed_def enqueue_eq split: if_splits)
    qed
  qed
  then show ?thesis
    using requested_processed [of components e d]
    by (auto simp: add_queue_empty split: if_splits)
qed

theorem missing_source_fails_witness:
  "installedComponents
     (add (sampleEnv COMPONENT_DEPENDENCIES [''Accordion'', ''Collapsible'']) (\<lambda>_. None) [''Ghost'']) = [] \<and>
   failedComponents
     (add (sampleEnv COMPONENT_DEPENDENCIES [''Accordion'', ''Collapsible'']) (\<lambda>_. None) [''Ghost'']) = [''Ghost''] \<and>
   ''Ghost'' \<in> set (failedComponents
     (add (sampleEnv COMPONENT_DEPENDENCIES [''Accordion'', ''Collapsible'']) (\<lambda>_. None)
        [''Ghost'', ''Collapsible''])) \<and>
   installQueue
     (add (sampleEnv COMPONENT_DEPENDENCIES [''Accordion'', ''Collapsible'']) (\<lambda>_. None)
        [''Ghost'', ''Collapsible'']) = [] \<and>
   installedComponents
     (add (sampleEnv COMPONENT_DEPENDENCIES [''Accordion'', ''Collapsible'']) (\<lambda>_. None)
        [''Ghost'', ''Collapsible'']) = [''Collapsible'']"
proof -
  let ?e = "sampleEnv COMPONENT_DEPENDENCIES [''Accordion'', ''Collapsible'']"
  have 1: "''Ghost'' \<in> set [''Ghost'', ''Collapsible'']" by simp
  have 2: "source ?e ''Ghost'' = None" by (simp add: sampleEnv_def)
  have 3: "installedComponents (add ?e (\<lambda>_. None) [''Ghost'']) = []" by code_simp
  have 4: "failedComponents (add ?e (\<lambda>_. None) [''Ghost'']) = [''Ghost'']" by code_simp
  have 5: "installedComponents (add ?e (\<lambda>_. None) [''Ghost'', ''Collapsible'']) = [''Collapsible'']"
    by code_simp
  from missing_source_fails [OF 1 2, of "\<lambda>_. None"] 3 4 5 show ?thesis by simp
qed

subsection \<open>C7: a requested component that exists at the destination\<close>

text \<open>
  C7, as stated, fails: a requested component that exists at the destination, without
  \<^verbatim>\<open>--force\<close>, is a warned success in the installed set. The source is looked at
  first (line 378): a requested name with a directory at the destination and no source
  is reported as not found and ends in the failed set.
\<close>

theorem existing_without_source_fails:
  "customInstalled ''Custom'' = Some [(''index.tsx'', ''mine'')] \<and>
   source (sampleEnv COMPONENT_DEPENDENCIES [''Accordion'', ''Collapsible'']) ''Custom'' = None \<and>
   installedComponents
     (add (sampleEnv COMPONENT_DEPENDENCIES [''Accordion'', ''Collapsible''])
        customInstalled [''Custom'']) = [] \<and>
   failedComponents
     (add (sampleEnv COMPONENT_DEPENDENCIES [''Accordion'', ''Collapsible''])
        customInstalled [''Custom'']) = [''Custom''] \<and>
   console
     (add (sampleEnv COMPONENT_DEPENDENCIES [''Accordion'', ''Collapsible''])
        customInstalled [''Custom'']) = [Adding ''Custom'', NotFound ''Custom'']"
  by code_simp

text \<open>
  C7, amended: for a requested component that exists at the destination, without
  \<^verbatim>\<open>--force\<close>, the destination directory is at the end of the run what it was at the
  start: no copy and no rewrite is applied to it. When the component has a source, it
  ends in the installed set, with the warning; when it has none, it ends in the failed
  set, reported as not found.
\<close>

theorem existing_component_untouched:
  assumes "c \<in> set components" and "d c = Some files" and "\<not> force e"
  shows "dest (add e d components) c = Some files \<and>
         Added c \<notin> set (console (add e d components)) \<and>
         (source e c \<noteq> None \<longrightarrow>
            c \<in> set (installedComponents (add e d components)) \<and>
            c \<notin> set (failedComponents (add e d components)) \<and>
            AlreadyExists c \<in> set (console (add e d components))) \<and>
         (source e c = None \<longrightarrow>
            c \<in> set (failedComponents (add e d components)) \<and>
            c \<notin> set (installedComponents (add e d components)) \<and>
            NotFound c \<in> set (console (add e d components)))"
proof -
  let ?I = "\<lambda>s. dest s c = Some files \<and> Added c \<notin> set (console s) \<and>
              (if source e c = None
               then c \<notin> set (installedComponents s) \<and>
                    (if c \<in> set (failedComponents s) then NotFound c \<in> set (console s)
                     else c \<in> set (installQueue s))
               else c \<notin> set (failedComponents s) \<and>
                    (if c \<in> set (installedComponents s)
                     then AlreadyExists c \<in> set (console s)
                     else c \<in> set (installQueue s)))"
  have "?I (add e d components)"
  proof (rule add_invariant [where I = ?I])
    show "?I (initialState d components)"
      using assms(1,2) by (simp add: initialState_def)
  next
    fix s :: state and c' q
    assume i: "?I s" and cq: "installQueue s = c' # q"
    from cq show "?I (iteration e s)"
    proof (cases rule: iteration_cases [where e = e])
      case Skip
      with i cq show ?thesis by (auto simp: processed_def split: if_splits)
    next
      case Missing
      with i cq show ?thesis by (auto simp: processed_def split: if_splits)
    next
      case (Exists src)
      with i cq show ?thesis by (auto simp: processed_def split: if_splits)
    next
      case (CopyThrows src)
      with i cq assms(3) show ?thesis by (auto simp: processed_def split: if_splits)
    next
      case (RewriteThrows src files)
      with i cq assms(3) show ?thesis by (auto simp: processed_def split: if_splits)
    next
      case (TypeError src files)
      with i cq assms(3) show ?thesis by (auto simp: processed_def split: if_splits)
    next
      case (Copied src files deps)
      with i cq assms(3) show ?thesis
        by (auto simp: processed_def enqueue_eq split: if_splits)
    qed
  qed
  then show ?thesis
    by (auto simp: add_queue_empty split: if_splits)
qed

theorem existing_component_untouched_witness:
  "dest (add (sampleEnv COMPONENT_DEPENDENCIES [''Accordion'', ''Collapsible''])
          accordionInstalled [''Collapsible'', ''Accordion'']) ''Accordion''
     = Some [(''index.tsx'', ''old'')] \<and>
   installedComponents (add (sampleEnv COMPONENT_DEPENDENCIES [''Accordion'', ''Collapsible''])
          accordionInstalled [''Collapsible'', ''Accordion'']) = [''Collapsible'', ''Accordion''] \<and>
   console (add (sampleEnv COMPONENT_DEPENDENCIES [''Accordion'', ''Collapsible''])
          accordionInstalled [''Collapsible'', ''Accordion'']) =
     [Adding ''Collapsible'', Added ''Collapsible'', Adding ''Accordion'',
      AlreadyExists ''Accordion''] \<and>
   dest (add (sampleEnv COMPONENT_DEPENDENCIES [''Accordion'', ''Collapsible''])
          customInstalled [''Custom'', ''Accordion'']) ''Custom''
     = Some [(''index.tsx'', ''mine'')] \<and>
   ''Custom'' \<in> set (failedComponents
       (add (sampleEnv COMPONENT_DEPENDENCIES [''Accordion'', ''Collapsible''])
          customInstalled [''Custom'', ''Accordion'']))"
proof -
  let ?e = "sampleEnv COMPONENT_DEPENDENCIES [''Accordion'', ''Collapsible'']"
  have 1: "''Accordion'' \<in> set [''Collapsible'', ''Accordion'']" by simp
  have 2: "source ?e ''Accordion'' \<noteq> None" by (simp add: sampleEnv_def)
  have 3: "accordionInstalled ''Accordion'' = Some [(''index.tsx'', ''old'')]"
    by (simp add: accordionInstalled_def)
  have 4: "\<not> force ?e" by (simp add: sampleEnv_def)
  have 5: "installedComponents (add ?e accordionInstalled [''Collapsible'', ''Accordion'']) =
             [''Collapsible'', ''Accordion'']"
    by code_simp
  have 6: "console (add ?e accordionInstalled [''Collapsible'', ''Accordion'']) =
     [Adding ''Collapsible'', Added ''Collapsible'', Adding ''Accordion'',
      AlreadyExists ''Accordion'']"
    by code_simp
  have 7: "''Custom'' \<in> set [''Custom'', ''Accordion'']" by simp
  have 8: "source ?e ''Custom'' = None" by (simp add: sampleEnv_def)
  have 9: "customInstalled ''Custom'' = Some [(''index.tsx'', ''mine'')]"
    by (simp add: customInstalled_def)
  from existing_component_untouched [where d = accordionInstalled, OF 1 3 4] 2 5 6
    existing_component_untouched [where d = customInstalled, OF 7 9 4] 8
  show ?thesis by simp
qed

subsection \<open>C8: a component that is not a key of the table\<close>

text \<open>
  C8: for a component that is not a key of the table the lookup gives no dependencies
  and is no error. This holds for every name that \<^verbatim>\<open>Object.prototype\<close> does not
  define (\<open>lookup_missing_key\<close>, \<open>missing_key_installed\<close>). For \<^verbatim>\<open>toString\<close>, which is
  not a key, the lookup finds the inherited function, \<^verbatim>\<open>|| []\<close> keeps it, the
  \<^verbatim>\<open>for...of\<close> throws and the component is reported as failed. The theorem is that
  run.
\<close>

theorem toString_lookup_throws:
  "map_of COMPONENT_DEPENDENCIES ''toString'' = None \<and>
   lookupDependencies COMPONENT_DEPENDENCIES ''toString'' = None \<and>
   console (add (sampleEnv COMPONENT_DEPENDENCIES [''toString'']) (\<lambda>_. None) [''toString''])
     = [Adding ''toString'', Added ''toString'', FailedToAdd ''toString''] \<and>
   failedComponents
     (add (sampleEnv COMPONENT_DEPENDENCIES [''toString'']) (\<lambda>_. None) [''toString''])
     = [''toString'']"
  by code_simp

subsection \<open>C9: determinism\<close>

text \<open>
  C9: the installed set, the failed set and the order of processing depend on the
  requested list, the table and the outcome of the install attempt of each component
  only: two runs that agree on these, whatever the files, the flag and the failing calls
  are, end with the same sets and the same console.
\<close>

theorem resolution_deterministic:
  assumes "dependencyTable e1 = dependencyTable e2"
    and "\<forall>c. installOutcome e1 d1 c = installOutcome e2 d2 c"
  shows "installedComponents (add e1 d1 components) = installedComponents (add e2 d2 components) \<and>
         failedComponents (add e1 d1 components) = failedComponents (add e2 d2 components) \<and>
         console (add e1 d1 components) = console (add e2 d2 components)"
proof -
  from assms(2) have o: "installOutcome e1 d1 = installOutcome e2 d2" by (simp add: fun_eq_iff)
  have "view (add e1 d1 components) = view (add e2 d2 components)"
    unfolding add_def
    by (rule drain_view [where ?d1.0 = d1 and ?d2.0 = d2])
      (simp_all add: view_def initialState_def assms(1) o)
  then show ?thesis by (simp add: view_def)
qed

theorem resolution_deterministic_witness:
  "console (add forcingEnv accordionInstalled [''Accordion'', ''Ghost'']) =
     console (add (sampleEnv COMPONENT_DEPENDENCIES [''Accordion'', ''Collapsible'']) (\<lambda>_. None)
        [''Accordion'', ''Ghost'']) \<and>
   installedComponents (add forcingEnv accordionInstalled [''Accordion'', ''Ghost'']) =
     [''Accordion'', ''Collapsible''] \<and>
   failedComponents (add forcingEnv accordionInstalled [''Accordion'', ''Ghost'']) = [''Ghost''] \<and>
   installedComponents (add (sampleEnv COMPONENT_DEPENDENCIES [''Accordion'', ''Collapsible''])
     (\<lambda>_. None) [''Accordion'', ''Ghost'']) = [''Accordion'', ''Collapsible''] \<and>
   failedComponents (add (sampleEnv COMPONENT_DEPENDENCIES [''Accordion'', ''Collapsible''])
     (\<lambda>_. None) [''Accordion'', ''Ghost'']) = [''Ghost'']"
proof -
  let ?e = "sampleEnv COMPONENT_DEPENDENCIES [''Accordion'', ''Collapsible'']"
  have 1: "dependencyTable forcingEnv = dependencyTable ?e"
    by (simp add: forcingEnv_def sampleEnv_def)
  have 2: "\<forall>c. installOutcome forcingEnv accordionInstalled c = installOutcome ?e (\<lambda>_. None) c"
    by (simp add: installOutcome_def forcingEnv_def sampleEnv_def rewriteFiles_no_throw)
  have 3: "installedComponents (add forcingEnv accordionInstalled [''Accordion'', ''Ghost'']) =
     [''Accordion'', ''Collapsible'']"
    by code_simp
  have 4: "failedComponents (add forcingEnv accordionInstalled [''Accordion'', ''Ghost'']) = [''Ghost'']"
    by code_simp
  from resolution_deterministic [OF 1 2, of "[''Accordion'', ''Ghost'']"] 3 4
  show ?thesis by simp
qed

subsection \<open>C10: the rewrite is idempotent\<close>

text \<open>
  C10: the import path rewrite is idempotent: for every file content, applying the two
  replacements twice gives the same text as applying them once.
\<close>

theorem rewriteImports_idempotent: "rewriteImports (rewriteImports content) = rewriteImports content"
proof -
  let ?m1 = "maskUtils content" and ?m2 = "maskUi content"
  let ?once = "applyMask ?m2 (applyMask ?m1 content)"
  have "maskUi (applyMask ?m1 content) = ?m2"
    by (rule maskUi_cong) (rule map_sk_applyMask)
  then have f: "rewriteImports content = ?once"
    by (simp add: rewriteImports_def replaceUtils_mask replaceUi_mask)
  have m1': "maskUtils ?once = ?m1"
    by (rule maskUtils_cong) (simp add: map_sk_applyMask)
  have m2': "maskUi (applyMask ?m1 ?once) = ?m2"
    by (rule maskUi_cong) (simp add: map_sk_applyMask)
  have "rewriteImports ?once = applyMask ?m2 (applyMask ?m1 ?once)"
    by (simp add: rewriteImports_def replaceUtils_mask replaceUi_mask m1' m2')
  then show ?thesis
    by (simp add: f applyMask_twice)
qed

theorem rewriteImports_idempotent_witness:
  "rewriteImports (rewriteImports
     (''import { cn } from '' @ [CHR 0x22] @ ''@/lib/utils'' @ [CHR 0x22] @
      ''; import { B } from '' @ [CHR 0x22] @ ''@/components/ui/from '' @ [CHR 0x22] @
      ''@/lib/utils'' @ [CHR 0x22]))
   = ''import { cn } from '' @ [CHR 0x27] @ ''@/lib/utils'' @ [CHR 0x27] @
      ''; import { B } from '' @ [CHR 0x27] @ ''@/components/ui/from '' @ [CHR 0x27] @
      ''@/lib/utils'' @ [CHR 0x27]"
proof -
  have "rewriteImports
     (''import { cn } from '' @ [CHR 0x22] @ ''@/lib/utils'' @ [CHR 0x22] @
      ''; import { B } from '' @ [CHR 0x22] @ ''@/components/ui/from '' @ [CHR 0x22] @
      ''@/lib/utils'' @ [CHR 0x22])
   = ''import { cn } from '' @ [CHR 0x27] @ ''@/lib/utils'' @ [CHR 0x27] @
      ''; import { B } from '' @ [CHR 0x27] @ ''@/components/ui/from '' @ [CHR 0x27] @
      ''@/lib/utils'' @ [CHR 0x27]"
    by code_simp
  then show ?thesis
    using rewriteImports_idempotent
      [of "''import { cn } from '' @ [CHR 0x22] @ ''@/lib/utils'' @ [CHR 0x22] @
      ''; import { B } from '' @ [CHR 0x22] @ ''@/components/ui/from '' @ [CHR 0x22] @
      ''@/lib/utils'' @ [CHR 0x22]"]
    by simp
qed

end
